theory Spec2Isabelle
  imports Main
begin

section \<open>Files, paths and directory trees\<close>

text \<open>
  The program under verification is \<^verbatim>\<open>backup_photos.py\<close>: it walks a source tree, skips
  files whose extension is not a media extension, skips files whose content is already
  in the destination (by size, then by SHA-256), and copies the rest with rsync,
  recording each copied file's hash in a dictionary.

  A path is the list of its components, relative to the root of its tree: the source
  paths are relative to \<^verbatim>\<open>originals_path\<close>, the destination paths to \<^verbatim>\<open>DESTINATION\<close>, so that
  \<^verbatim>\<open>DESTINATION / src_file.relative_to(originals_path)\<close> is the same component list.
  A tree is the list of its entries in the order in which \<^verbatim>\<open>rglob("*")\<close> (destination) or
  \<^verbatim>\<open>os.walk\<close> (source) yields them.

  What the operating system decides is an explicit input of the model: the bytes of a
  file, whether \<^verbatim>\<open>open\<close> and \<^verbatim>\<open>read\<close> succeed on it (\<open>readable\<close>), what kind of node it is,
  what a symbolic link of the source tree resolves to once rsync has recreated it in
  the destination (\<open>relinked\<close>), and whether the rsync process exits with status 0 for
  a file (the parameter \<open>ok\<close>).
  The start-up checks (\<^verbatim>\<open>check_mount\<close>, \<^verbatim>\<open>check_permissions\<close>, \<^verbatim>\<open>find_originals_path\<close>) are taken
  to have passed, \<^verbatim>\<open>stat\<close> and \<^verbatim>\<open>mkdir\<close> to succeed on the entries of the walk; logging, the
  progress bar and the elapsed time are left out.
\<close>

type_synonym path = "string list"

datatype node_kind = RegularFile | Directory | SpecialFile | SymlinkToFile | SymlinkOther

record entry =
  path :: path
  kind :: node_kind
  data :: string
  readable :: bool
  relinked :: "(string \<times> bool) option"

text \<open>
  \<^verbatim>\<open>Path.is_file()\<close> follows symbolic links: it holds for a regular file and for a symbolic
  link that resolves to a regular file, and for nothing else. \<^verbatim>\<open>Path.stat()\<close> follows links
  too, so \<open>data\<close> of a \<open>SymlinkToFile\<close> entry is the bytes of its target and
  \<^verbatim>\<open>st_size\<close> their number.

  \<open>relinked\<close> is read for a symbolic link of the source tree only. A link with the same
  text at the mirrored path of the destination need not lead where the source link
  leads: \<open>Some (b, r)\<close> says that it resolves there to a regular file with the bytes
  \<open>b\<close>, readable or not as \<open>r\<close> says (an absolute link to a regular file keeps its
  target), \<open>None\<close> that it dangles there or resolves to something that is not a regular
  file (as a relative link in general does).
\<close>

definition is_file :: "entry \<Rightarrow> bool" where
  "is_file e = (kind e = RegularFile \<or> kind e = SymlinkToFile)"

definition st_size :: "entry \<Rightarrow> nat" where
  "st_size e = length (data e)"

text \<open>\<^verbatim>\<open>PurePath.name\<close> and \<^verbatim>\<open>PurePath.parent\<close>; the empty relative path has the name \<^verbatim>\<open>''\<close>
  and is its own parent.\<close>

definition name :: "path \<Rightarrow> string" where
  "name p = (if p = [] then [] else last p)"

definition parent :: "path \<Rightarrow> path" where
  "parent p = butlast p"

text \<open>\<^verbatim>\<open>str.rfind('.')\<close>: the index of the last dot, or \<open>None\<close> for Python's -1.\<close>

definition rfind_dot :: "string \<Rightarrow> nat option" where
  "rfind_dot s =
     (if CHR ''.'' \<in> set s
      then Some (length s - 1 - length (takeWhile (\<lambda>c. c \<noteq> CHR ''.'') (rev s)))
      else None)"

text \<open>\<^verbatim>\<open>PurePath.suffix\<close>: \<^verbatim>\<open>i = name.rfind('.')\<close>, then \<^verbatim>\<open>name[i:]\<close> if \<^verbatim>\<open>0 < i < len(name) - 1\<close>
  and \<^verbatim>\<open>''\<close> otherwise.\<close>

definition suffix :: "path \<Rightarrow> string" where
  "suffix p =
     (case rfind_dot (name p) of
        None \<Rightarrow> []
      | Some i \<Rightarrow> if 0 < i \<and> i + 1 < length (name p) then drop i (name p) else [])"

text \<open>\<^verbatim>\<open>str.lower()\<close> on the ASCII letters; the other bytes are left as they are.\<close>

definition lower_char :: "char \<Rightarrow> char" where
  "lower_char c =
     (case map_of (zip ''ABCDEFGHIJKLMNOPQRSTUVWXYZ'' ''abcdefghijklmnopqrstuvwxyz'') c of
        None \<Rightarrow> c
      | Some l \<Rightarrow> l)"

definition lower :: "string \<Rightarrow> string" where
  "lower s = map lower_char s"

definition VALID_EXTENSIONS :: "string set" where
  "VALID_EXTENSIONS =
     {''.jpg'', ''.jpeg'', ''.png'', ''.heic'', ''.mov'', ''.mp4'', ''.m4v'', ''.gif'',
      ''.raw'', ''.aaf''}"

section \<open>Hashing\<close>

text \<open>
  \<^verbatim>\<open>get_file_hash\<close> feeds the file to SHA-256 in chunks of 4096 bytes (the digest of the
  chunks in sequence is the digest of the file's bytes) and returns the hexadecimal
  digest; any exception is logged and turned into \<^verbatim>\<open>None\<close>. SHA-256 itself is the parameter
  \<open>sha256\<close>, from the bytes to the hexadecimal string.
\<close>

definition get_file_hash :: "(string \<Rightarrow> string) \<Rightarrow> entry \<Rightarrow> string option" where
  "get_file_hash sha256 f = (if readable f then Some (sha256 (data f)) else None)"

text \<open>Python's truth value of \<^verbatim>\<open>str | None\<close>: \<^verbatim>\<open>None\<close> and \<^verbatim>\<open>''\<close> are false.\<close>

fun truthy :: "string option \<Rightarrow> bool" where
  "truthy None = False"
| "truthy (Some h) = (h \<noteq> [])"

section \<open>The destination hash cache\<close>

type_synonym cache = "string \<rightharpoonup> path"

fun build_loop :: "(string \<Rightarrow> string) \<Rightarrow> entry list \<Rightarrow> cache \<Rightarrow> cache" where
  "build_loop sha256 [] hash_cache = hash_cache"
| "build_loop sha256 (dest_file # rest) hash_cache =
     (if is_file dest_file then
        (let file_hash = get_file_hash sha256 dest_file in
         if truthy file_hash
         then build_loop sha256 rest (hash_cache(the file_hash \<mapsto> path dest_file))
         else build_loop sha256 rest hash_cache)
      else build_loop sha256 rest hash_cache)"

definition build_destination_hash_cache :: "(string \<Rightarrow> string) \<Rightarrow> entry list \<Rightarrow> cache" where
  "build_destination_hash_cache sha256 dest_dir = build_loop sha256 dest_dir Map.empty"

section \<open>The duplicate check\<close>

text \<open>
  The loop of \<^verbatim>\<open>check_duplicate\<close> over the destination tree, with the local variable
  \<^verbatim>\<open>src_hash\<close> as an argument. The second component of the result counts the calls of
  \<^verbatim>\<open>get_file_hash\<close> the loop has made; it is the only thing added to the code.
\<close>

fun check_duplicate_loop ::
  "(string \<Rightarrow> string) \<Rightarrow> entry \<Rightarrow> cache \<Rightarrow> entry list \<Rightarrow> string option \<Rightarrow> nat \<Rightarrow> bool \<times> nat" where
  "check_duplicate_loop sha256 src_file hash_cache [] src_hash calls = (False, calls)"
| "check_duplicate_loop sha256 src_file hash_cache (dest_file # rest) src_hash calls =
     (if is_file dest_file \<and> st_size dest_file = st_size src_file then
        (case src_hash of
           None \<Rightarrow>
             (let h = get_file_hash sha256 src_file in
              if \<not> truthy h then (False, calls + 1)
              else if hash_cache (the h) \<noteq> None then (True, calls + 1)
              else check_duplicate_loop sha256 src_file hash_cache rest h (calls + 1))
         | Some h \<Rightarrow>
             if hash_cache h \<noteq> None then (True, calls)
             else check_duplicate_loop sha256 src_file hash_cache rest src_hash calls)
      else check_duplicate_loop sha256 src_file hash_cache rest src_hash calls)"

definition check_duplicate :: "(string \<Rightarrow> string) \<Rightarrow> entry \<Rightarrow> cache \<Rightarrow> entry list \<Rightarrow> bool" where
  "check_duplicate sha256 src_file hash_cache dest_dir =
     fst (check_duplicate_loop sha256 src_file hash_cache dest_dir None 0)"

definition check_duplicate_hashes ::
  "(string \<Rightarrow> string) \<Rightarrow> entry \<Rightarrow> cache \<Rightarrow> entry list \<Rightarrow> nat" where
  "check_duplicate_hashes sha256 src_file hash_cache dest_dir =
     snd (check_duplicate_loop sha256 src_file hash_cache dest_dir None 0)"

section \<open>Copying\<close>

text \<open>
  \<^verbatim>\<open>rsync -a SRC DIR\<close> creates \<^verbatim>\<open>DIR/name(SRC)\<close> in place of whatever was at that path. Archive
  mode copies a regular file with its bytes and permission bits. It does not follow a
  symbolic link: it creates a link with the same text (\<^verbatim>\<open>-a\<close> implies \<^verbatim>\<open>-l\<close>), and what the new
  link resolves to is what \<open>relinked\<close> says, not what the source link resolves to.
  \<^verbatim>\<open>subprocess.run(..., check=True)\<close> raises \<^verbatim>\<open>CalledProcessError\<close> on a non-zero exit status,
  which \<^verbatim>\<open>rsync_file\<close> logs and raises again; the destination tree is then as it was.
\<close>

datatype error = CalledProcessError

definition put :: "entry \<Rightarrow> entry list \<Rightarrow> entry list" where
  "put e tree =
     (if path e \<in> set (map path tree)
      then map (\<lambda>d. if path d = path e then e else d) tree
      else tree @ [e])"

definition rsync_copy :: "entry \<Rightarrow> path \<Rightarrow> entry" where
  "rsync_copy src p =
     (if kind src = SymlinkToFile \<or> kind src = SymlinkOther then
        (case relinked src of
           None \<Rightarrow> src\<lparr>path := p, kind := SymlinkOther\<rparr>
         | Some (b, r) \<Rightarrow> src\<lparr>path := p, kind := SymlinkToFile, data := b, readable := r\<rparr>)
      else src\<lparr>path := p\<rparr>)"

definition rsync_file ::
  "(entry \<Rightarrow> bool) \<Rightarrow> entry \<Rightarrow> path \<Rightarrow> entry list \<Rightarrow> error + entry list" where
  "rsync_file ok src dest tree =
     (if ok src then Inr (put (rsync_copy src (dest @ [name (path src)])) tree)
      else Inl CalledProcessError)"

section \<open>The walk\<close>

text \<open>
  The state of the loop of \<^verbatim>\<open>process_photos\<close>: the dictionary, the destination tree and
  the two counters. \<open>hash_calls\<close> counts the calls of \<^verbatim>\<open>get_file_hash\<close> on source files; the
  code has no such variable.
\<close>

record run_state =
  hash_cache :: cache
  dest_tree :: "entry list"
  copied_files :: nat
  skipped_files :: nat
  hash_calls :: nat

definition process_file ::
  "(string \<Rightarrow> string) \<Rightarrow> (entry \<Rightarrow> bool) \<Rightarrow> run_state \<Rightarrow> entry \<Rightarrow> run_state" where
  "process_file sha256 ok st src_file =
     (if lower (suffix (path src_file)) \<notin> VALID_EXTENSIONS
      then st\<lparr>skipped_files := skipped_files st + 1\<rparr>
      else
        (case check_duplicate_loop sha256 src_file (hash_cache st) (dest_tree st) None 0 of
           (True, n) \<Rightarrow>
             st\<lparr>skipped_files := skipped_files st + 1, hash_calls := hash_calls st + n\<rparr>
         | (False, n) \<Rightarrow>
             (let rel_path = path src_file;
                  dest_file = rel_path
              in case rsync_file ok src_file (parent dest_file) (dest_tree st) of
                   Inl e \<Rightarrow> st\<lparr>hash_calls := hash_calls st + n\<rparr>
                 | Inr tree \<Rightarrow>
                     (let src_hash = get_file_hash sha256 src_file;
                          st' = st\<lparr>dest_tree := tree,
                                   copied_files := copied_files st + 1,
                                   hash_calls := hash_calls st + n + 1\<rparr>
                      in if truthy src_hash
                         then st'\<lparr>hash_cache := (hash_cache st)(the src_hash \<mapsto> dest_file)\<rparr>
                         else st'))))"

fun process_photos_loop ::
  "(string \<Rightarrow> string) \<Rightarrow> (entry \<Rightarrow> bool) \<Rightarrow> entry list \<Rightarrow> run_state \<Rightarrow> run_state" where
  "process_photos_loop sha256 ok [] st = st"
| "process_photos_loop sha256 ok (src_file # files) st =
     process_photos_loop sha256 ok files (process_file sha256 ok st src_file)"

definition initial_state :: "(string \<Rightarrow> string) \<Rightarrow> entry list \<Rightarrow> run_state" where
  "initial_state sha256 dest_dir =
     \<lparr>hash_cache = build_destination_hash_cache sha256 dest_dir,
      dest_tree = dest_dir, copied_files = 0, skipped_files = 0, hash_calls = 0\<rparr>"

definition process_photos ::
  "(string \<Rightarrow> string) \<Rightarrow> (entry \<Rightarrow> bool) \<Rightarrow> entry list \<Rightarrow> entry list \<Rightarrow> run_state" where
  "process_photos sha256 ok originals dest_dir =
     process_photos_loop sha256 ok originals (initial_state sha256 dest_dir)"

definition total_files :: "entry list \<Rightarrow> nat" where
  "total_files originals = length (filter is_file originals)"

text \<open>
  The variables of the program in a state, without the added counter: two states that
  agree on them are the same state of the Python program.
\<close>

definition program_state :: "run_state \<Rightarrow> cache \<times> entry list \<times> nat \<times> nat" where
  "program_state st = (hash_cache st, dest_tree st, copied_files st, skipped_files st)"

section \<open>Concrete inputs\<close>

text \<open>
  The inputs of the worked examples: an injective stand-in for SHA-256 that is never
  empty; a readable regular file with given path and bytes, a regular file that cannot
  be read, and a symbolic link to a readable regular file whose text leads nowhere from
  another place; an rsync that always succeeds and one that fails on one path.
\<close>

definition tag_digest :: "string \<Rightarrow> string" where
  "tag_digest b = CHR ''#'' # b"

definition photo :: "path \<Rightarrow> string \<Rightarrow> entry" where
  "photo p b =
     \<lparr>path = p, kind = RegularFile, data = b, readable = True, relinked = None\<rparr>"

definition unreadable :: "path \<Rightarrow> string \<Rightarrow> entry" where
  "unreadable p b =
     \<lparr>path = p, kind = RegularFile, data = b, readable = False, relinked = None\<rparr>"

definition link :: "path \<Rightarrow> string \<Rightarrow> entry" where
  "link p b =
     \<lparr>path = p, kind = SymlinkToFile, data = b, readable = True, relinked = None\<rparr>"

definition always_ok :: "entry \<Rightarrow> bool" where
  "always_ok e = True"

definition fails_on :: "path \<Rightarrow> entry \<Rightarrow> bool" where
  "fails_on p e = (path e \<noteq> p)"

lemmas entry_simps = photo_def unreadable_def link_def always_ok_def tag_digest_def is_file_def st_size_def
  get_file_hash_def check_duplicate_def check_duplicate_hashes_def
  build_destination_hash_cache_def Let_def

lemmas suffix_simps = lower_def suffix_def name_def rfind_dot_def lower_char_def
  VALID_EXTENSIONS_def

lemmas run_simps = entry_simps suffix_simps process_file_def process_photos_def
  initial_state_def rsync_file_def rsync_copy_def put_def parent_def program_state_def
  fails_on_def

section \<open>The duplicate check, in closed form\<close>

lemma size_match_Some:
  "check_duplicate_loop H src hc ds (Some h) n =
     ((\<exists>d\<in>set ds. is_file d \<and> st_size d = st_size src) \<and> hc h \<noteq> None, n)"
  by (induction ds) auto

lemma size_match_None:
  "check_duplicate_loop H src hc ds None n =
     (if \<exists>d\<in>set ds. is_file d \<and> st_size d = st_size src
      then (truthy (get_file_hash H src) \<and> hc (the (get_file_hash H src)) \<noteq> None, n + 1)
      else (False, n))"
proof (induction ds)
  case Nil
  then show ?case by simp
next
  case (Cons d ds)
  show ?case
  proof (cases "is_file d \<and> st_size d = st_size src")
    case True
    then show ?thesis
      by (cases "get_file_hash H src") (auto simp: size_match_Some Let_def)
  next
    case False
    then show ?thesis using Cons by auto
  qed
qed

lemma no_size_match_prefix:
  assumes "\<forall>p\<in>set pre. \<not> (is_file p \<and> st_size p = st_size src)"
  shows "check_duplicate_loop H src hc (pre @ rest) sh n = check_duplicate_loop H src hc rest sh n"
  using assms by (induction pre) auto

lemma check_duplicate_iff:
  "check_duplicate H s hc D =
     ((\<exists>d\<in>set D. is_file d \<and> st_size d = st_size s) \<and>
      truthy (get_file_hash H s) \<and> hc (the (get_file_hash H s)) \<noteq> None)"
  by (auto simp: check_duplicate_def size_match_None)

lemma check_duplicate_mono:
  assumes "check_duplicate H s hc D" and "dom hc \<subseteq> dom hc'" and "set D \<subseteq> set D'"
  shows "check_duplicate H s hc' D'"
proof -
  from assms(1) obtain d where d: "d \<in> set D" "is_file d" "st_size d = st_size s"
    and t: "truthy (get_file_hash H s)" and k: "the (get_file_hash H s) \<in> dom hc"
    unfolding check_duplicate_iff by (auto simp: dom_def)
  from d assms(3) have "\<exists>d\<in>set D'. is_file d \<and> st_size d = st_size s" by blast
  moreover from k assms(2) have "hc' (the (get_file_hash H s)) \<noteq> None" by (auto simp: dom_def)
  ultimately show ?thesis using t unfolding check_duplicate_iff by simp
qed

section \<open>The cache build, in closed form\<close>

lemma build_loop_append:
  "build_loop H (xs @ ys) hc = build_loop H ys (build_loop H xs hc)"
  by (induction xs arbitrary: hc) (auto simp: Let_def)

lemma build_loop_lookup:
  "build_loop H ds hc h =
     (case find (\<lambda>d. is_file d \<and> get_file_hash H d = Some h) (rev ds) of
        Some d \<Rightarrow> if h = [] then hc h else Some (path d)
      | None \<Rightarrow> hc h)"
proof (induction ds rule: rev_induct)
  case Nil
  then show ?case by simp
next
  case (snoc d ds)
  show ?case
  proof (cases "get_file_hash H d")
    case None
    then show ?thesis using snoc by (simp add: build_loop_append Let_def)
  next
    case (Some k)
    then show ?thesis using snoc by (auto simp: build_loop_append Let_def split: option.splits)
  qed
qed

lemma build_loop_dom:
  "dom (build_loop H ds hc) =
     dom hc \<union> {h. h \<noteq> [] \<and> (\<exists>d\<in>set ds. is_file d \<and> get_file_hash H d = Some h)}"
proof (rule set_eqI)
  fix h
  show "h \<in> dom (build_loop H ds hc) \<longleftrightarrow>
        h \<in> dom hc \<union> {h. h \<noteq> [] \<and> (\<exists>d\<in>set ds. is_file d \<and> get_file_hash H d = Some h)}"
  proof (cases "find (\<lambda>d. is_file d \<and> get_file_hash H d = Some h) (rev ds)")
    case None
    then have "\<not> (\<exists>d\<in>set ds. is_file d \<and> get_file_hash H d = Some h)"
      by (auto simp: find_None_iff)
    with None show ?thesis by (auto simp: build_loop_lookup dom_def)
  next
    case (Some d)
    then have "\<exists>d\<in>set ds. is_file d \<and> get_file_hash H d = Some h"
      by (auto simp: find_Some_iff) (metis set_rev nth_mem length_rev)
    with Some show ?thesis by (auto simp: build_loop_lookup dom_def)
  qed
qed

lemma build_cache_dom:
  assumes "\<And>b. H b \<noteq> []"
  shows "dom (build_destination_hash_cache H D) =
           {H (data d) | d. d \<in> set D \<and> is_file d \<and> readable d}"
  using assms
  unfolding build_destination_hash_cache_def build_loop_dom
  by (auto simp: get_file_hash_def split: if_splits)

section \<open>One step of the walk\<close>

lemma put_member: "e \<in> set (put e tree)"
  by (auto simp: put_def)


lemma parent_name: "p \<noteq> [] \<Longrightarrow> parent p @ [name p] = p"
  by (simp add: parent_def name_def)

lemma rsync_copy_path: "path (rsync_copy src p) = p"
  by (simp add: rsync_copy_def split: option.splits)

lemma rsync_copy_regular:
  "kind src = RegularFile \<Longrightarrow> path src \<noteq> [] \<Longrightarrow>
   rsync_copy src (parent (path src) @ [name (path src)]) = src"
  by (simp add: rsync_copy_def parent_name)

lemma process_file_duplicate:
  assumes "lower (suffix (path src)) \<in> VALID_EXTENSIONS"
    and "check_duplicate H src (hash_cache st) (dest_tree st)"
  shows "process_file H ok st src =
           st\<lparr>skipped_files := skipped_files st + 1,
              hash_calls := hash_calls st + check_duplicate_hashes H src (hash_cache st) (dest_tree st)\<rparr>"
  using assms
  by (cases "check_duplicate_loop H src (hash_cache st) (dest_tree st) None 0")
     (simp add: process_file_def check_duplicate_def check_duplicate_hashes_def)


lemma process_file_copied:
  assumes "lower (suffix (path src)) \<in> VALID_EXTENSIONS"
    and "\<not> check_duplicate H src (hash_cache st) (dest_tree st)"
    and "ok src"
  shows "process_file H ok st src =
           st\<lparr>dest_tree :=
                put (rsync_copy src (parent (path src) @ [name (path src)])) (dest_tree st),
              copied_files := copied_files st + 1,
              hash_calls := hash_calls st + check_duplicate_hashes H src (hash_cache st) (dest_tree st) + 1,
              hash_cache := (if truthy (get_file_hash H src)
                             then (hash_cache st)(the (get_file_hash H src) \<mapsto> path src)
                             else hash_cache st)\<rparr>"
  using assms
  by (cases "check_duplicate_loop H src (hash_cache st) (dest_tree st) None 0")
     (simp add: process_file_def check_duplicate_def check_duplicate_hashes_def rsync_file_def Let_def)





section \<open>What a run preserves\<close>




lemma put_fresh: "path e \<notin> path ` set tree \<Longrightarrow> put e tree = tree @ [e]"
  by (simp add: put_def)

lemma copy_step:
  assumes ne: "\<And>b. H b \<noteq> []"
    and valid: "lower (suffix (path s)) \<in> VALID_EXTENSIONS"
    and regular: "readable s" "kind s = RegularFile" "ok s" "path s \<noteq> []"
    and inv: "dom (hash_cache st) = dom (build_destination_hash_cache H (dest_tree st))"
    and same: "\<And>d. d \<in> set (dest_tree st) \<Longrightarrow> path d = path s \<Longrightarrow> d = s"
  shows "dom (hash_cache (process_file H ok st s)) =
           dom (build_destination_hash_cache H (dest_tree (process_file H ok st s))) \<and>
         set (dest_tree (process_file H ok st s)) \<subseteq> insert s (set (dest_tree st)) \<and>
         set (dest_tree st) \<subseteq> set (dest_tree (process_file H ok st s)) \<and>
         dom (hash_cache st) \<subseteq> dom (hash_cache (process_file H ok st s)) \<and>
         check_duplicate H s (hash_cache (process_file H ok st s))
           (dest_tree (process_file H ok st s))"
proof (cases "check_duplicate H s (hash_cache st) (dest_tree st)")
  case True
  then show ?thesis using valid inv by (auto simp: process_file_duplicate)
next
  case False
  have s: "readable s" "is_file s" "ok s" "path s \<noteq> []"
    using regular by (simp_all add: is_file_def)
  have hash: "get_file_hash H s = Some (H (data s))" "truthy (get_file_hash H s)"
    using s(1) ne by (simp_all add: get_file_hash_def)
  have fresh: "path s \<notin> path ` set (dest_tree st)"
  proof
    assume "path s \<in> path ` set (dest_tree st)"
    then obtain d where "d \<in> set (dest_tree st)" "path d = path s" by auto
    with same have mem: "s \<in> set (dest_tree st)" by auto
    with s have "H (data s) \<in> dom (hash_cache st)"
      unfolding inv build_cache_dom [OF ne] by blast
    with mem s(2) hash have "check_duplicate H s (hash_cache st) (dest_tree st)"
      unfolding check_duplicate_iff by (auto simp: dom_def)
    with False show False by simp
  qed
  have same_path: "rsync_copy s (parent (path s) @ [name (path s)]) = s"
    using regular(2,4) by (rule rsync_copy_regular)
  have tree: "dest_tree (process_file H ok st s) = dest_tree st @ [s]"
    using valid False s(3) fresh by (simp add: process_file_copied same_path put_fresh)
  have cache: "hash_cache (process_file H ok st s) = (hash_cache st)(H (data s) \<mapsto> path s)"
    using valid False s(3) hash by (simp add: process_file_copied)
  have 1: "dom (hash_cache (process_file H ok st s)) =
           dom (build_destination_hash_cache H (dest_tree (process_file H ok st s)))"
    unfolding tree cache using s(1,2) inv by (auto simp: build_cache_dom [OF ne])
  have 5: "check_duplicate H s (hash_cache (process_file H ok st s))
           (dest_tree (process_file H ok st s))"
    unfolding tree cache check_duplicate_iff using s(2) hash by auto
  show ?thesis using 1 5 unfolding tree cache by auto
qed

lemma first_run:
  assumes ne: "\<And>b. H b \<noteq> []"
    and files: "\<And>s. s \<in> set fs \<Longrightarrow> lower (suffix (path s)) \<in> VALID_EXTENSIONS \<Longrightarrow>
                  readable s \<and> kind s = RegularFile \<and> ok s \<and> path s \<noteq> []"
    and dist: "distinct (map path fs)"
    and inv: "dom (hash_cache st) = dom (build_destination_hash_cache H (dest_tree st))"
    and same: "\<And>s d. s \<in> set fs \<Longrightarrow> lower (suffix (path s)) \<in> VALID_EXTENSIONS \<Longrightarrow>
                  d \<in> set (dest_tree st) \<Longrightarrow> path d = path s \<Longrightarrow> d = s"
  shows "dom (hash_cache (process_photos_loop H ok fs st)) =
           dom (build_destination_hash_cache H (dest_tree (process_photos_loop H ok fs st))) \<and>
         set (dest_tree st) \<subseteq> set (dest_tree (process_photos_loop H ok fs st)) \<and>
         dom (hash_cache st) \<subseteq> dom (hash_cache (process_photos_loop H ok fs st)) \<and>
         (\<forall>s\<in>set fs. lower (suffix (path s)) \<in> VALID_EXTENSIONS \<longrightarrow>
            check_duplicate H s (hash_cache (process_photos_loop H ok fs st))
              (dest_tree (process_photos_loop H ok fs st)))"
  using files dist inv same
proof (induction fs arbitrary: st)
  case Nil
  then show ?case by simp
next
  case (Cons f fs)
  let ?st = "process_file H ok st f"
  let ?end = "process_photos_loop H ok fs ?st"
  have step: "dom (hash_cache ?st) = dom (build_destination_hash_cache H (dest_tree ?st)) \<and>
         set (dest_tree ?st) \<subseteq> insert f (set (dest_tree st)) \<and>
         set (dest_tree st) \<subseteq> set (dest_tree ?st) \<and>
         dom (hash_cache st) \<subseteq> dom (hash_cache ?st) \<and>
         (lower (suffix (path f)) \<in> VALID_EXTENSIONS \<longrightarrow>
            check_duplicate H f (hash_cache ?st) (dest_tree ?st))"
  proof (cases "lower (suffix (path f)) \<in> VALID_EXTENSIONS")
    case True
    have f: "readable f" "kind f = RegularFile" "ok f" "path f \<noteq> []"
      using Cons.prems(1) [of f] True by simp_all
    have "\<And>d. d \<in> set (dest_tree st) \<Longrightarrow> path d = path f \<Longrightarrow> d = f"
      using Cons.prems(4) [of f] True by simp
    from copy_step [where H = H and s = f and ok = ok and st = st, OF ne True f Cons.prems(3) this]
    show ?thesis by blast
  next
    case False
    then show ?thesis using Cons.prems(3) by (auto simp: process_file_def)
  qed
  have files': "\<And>s. s \<in> set fs \<Longrightarrow> lower (suffix (path s)) \<in> VALID_EXTENSIONS \<Longrightarrow>
                  readable s \<and> kind s = RegularFile \<and> ok s \<and> path s \<noteq> []"
    using Cons.prems(1) by simp
  have dist': "distinct (map path fs)" using Cons.prems(2) by simp
  have same': "\<And>s d. s \<in> set fs \<Longrightarrow> lower (suffix (path s)) \<in> VALID_EXTENSIONS \<Longrightarrow>
                  d \<in> set (dest_tree ?st) \<Longrightarrow> path d = path s \<Longrightarrow> d = s"
  proof -
    fix s d
    assume a: "s \<in> set fs" "lower (suffix (path s)) \<in> VALID_EXTENSIONS"
      "d \<in> set (dest_tree ?st)" "path d = path s"
    from a(1) Cons.prems(2) have "path f \<noteq> path s" by auto
    with a(4) have "d \<noteq> f" by auto
    with a(3) step have "d \<in> set (dest_tree st)" by auto
    with Cons.prems(4) [of s d] a show "d = s" by simp
  qed
  have inv': "dom (hash_cache ?st) = dom (build_destination_hash_cache H (dest_tree ?st))"
    using step by simp
  note IH = Cons.IH [OF files' dist' inv' same']
  have IH1: "dom (hash_cache ?end) = dom (build_destination_hash_cache H (dest_tree ?end))"
    and IH2: "set (dest_tree ?st) \<subseteq> set (dest_tree ?end)"
    and IH3: "dom (hash_cache ?st) \<subseteq> dom (hash_cache ?end)"
    and IH4: "\<forall>s\<in>set fs. lower (suffix (path s)) \<in> VALID_EXTENSIONS \<longrightarrow>
            check_duplicate H s (hash_cache ?end) (dest_tree ?end)"
    using IH by blast+
  have step2: "set (dest_tree st) \<subseteq> set (dest_tree ?st)"
    and step3: "dom (hash_cache st) \<subseteq> dom (hash_cache ?st)"
    and step4: "lower (suffix (path f)) \<in> VALID_EXTENSIONS \<longrightarrow>
            check_duplicate H f (hash_cache ?st) (dest_tree ?st)"
    using step by blast+
  have f_dup: "lower (suffix (path f)) \<in> VALID_EXTENSIONS \<longrightarrow>
          check_duplicate H f (hash_cache ?end) (dest_tree ?end)"
    using step4 check_duplicate_mono [OF _ IH3 IH2] by blast
  have 2: "set (dest_tree st) \<subseteq> set (dest_tree ?end)" using step2 IH2 by (rule subset_trans)
  have 3: "dom (hash_cache st) \<subseteq> dom (hash_cache ?end)" using step3 IH3 by (rule subset_trans)
  have 4: "\<forall>s\<in>set (f # fs). lower (suffix (path s)) \<in> VALID_EXTENSIONS \<longrightarrow>
            check_duplicate H s (hash_cache ?end) (dest_tree ?end)"
    using f_dup IH4 by simp
  have unfold: "process_photos_loop H ok (f # fs) st = ?end" by simp
  show ?case unfolding unfold using IH1 2 3 4 by (intro conjI)
qed

lemma second_run:
  assumes "\<And>s. s \<in> set fs \<Longrightarrow> lower (suffix (path s)) \<in> VALID_EXTENSIONS \<Longrightarrow>
             check_duplicate H s (hash_cache st) (dest_tree st)"
  shows "hash_cache (process_photos_loop H ok fs st) = hash_cache st \<and>
         dest_tree (process_photos_loop H ok fs st) = dest_tree st \<and>
         copied_files (process_photos_loop H ok fs st) = copied_files st \<and>
         skipped_files (process_photos_loop H ok fs st) = skipped_files st + length fs"
  using assms
proof (induction fs arbitrary: st)
  case Nil
  then show ?case by simp
next
  case (Cons f fs)
  let ?st = "process_file H ok st f"
  have step: "hash_cache ?st = hash_cache st \<and> dest_tree ?st = dest_tree st \<and>
      copied_files ?st = copied_files st \<and> skipped_files ?st = skipped_files st + 1"
  proof (cases "lower (suffix (path f)) \<in> VALID_EXTENSIONS")
    case True
    with Cons.prems [of f] show ?thesis by (simp add: process_file_duplicate)
  next
    case False
    then show ?thesis by (simp add: process_file_def)
  qed
  have "\<And>s. s \<in> set fs \<Longrightarrow> lower (suffix (path s)) \<in> VALID_EXTENSIONS \<Longrightarrow>
             check_duplicate H s (hash_cache ?st) (dest_tree ?st)"
    using Cons.prems step by simp
  from Cons.IH [OF this] step show ?case by simp
qed

section \<open>Claims about the duplicate check\<close>

text \<open>
  Claim C1, as the code has it. The claim asks that a source file whose hash cannot be
  computed during the duplicate check makes the check fail with an error. The code has
  the guard \<^verbatim>\<open>if not src_hash: return False\<close>: for every source file whose hash
  computation fails, \<^verbatim>\<open>check_duplicate\<close> returns \<^verbatim>\<open>False\<close>, "not a duplicate", whatever the
  cache and the destination hold.
\<close>

theorem hash_failure_classified_not_duplicate:
  "get_file_hash H src = None \<Longrightarrow> check_duplicate H src hc dest = False"
  by (simp add: check_duplicate_def size_match_None)

theorem hash_failure_classified_not_duplicate_witness:
  "check_duplicate tag_digest (unreadable [''a.jpg''] ''xy'')
     (build_destination_hash_cache tag_digest [photo [''b.jpg''] ''z'', photo [''c.jpg''] ''xy''])
     [photo [''b.jpg''] ''z'', photo [''c.jpg''] ''xy''] = False"
proof -
  have "get_file_hash tag_digest (unreadable [''a.jpg''] ''xy'') = None"
    by (simp add: entry_simps)
  then show ?thesis by (rule hash_failure_classified_not_duplicate)
qed

text \<open>
  Against C1 as stated: the unreadable \<^verbatim>\<open>a.jpg\<close> has the size of the destination's
  \<^verbatim>\<open>b.jpg\<close>, so its hash is asked for and fails; the check answers \<^verbatim>\<open>False\<close> and the run copies
  the file and counts it as copied.
\<close>

theorem hash_failure_raises_no_error:
  "get_file_hash tag_digest (unreadable [''a.jpg''] ''x'') = None \<and>
   check_duplicate tag_digest (unreadable [''a.jpg''] ''x'')
     (build_destination_hash_cache tag_digest [photo [''b.jpg''] ''x'']) [photo [''b.jpg''] ''x'']
     = False \<and>
   copied_files (process_photos tag_digest always_ok
     [unreadable [''a.jpg''] ''x''] [photo [''b.jpg''] ''x'']) = 1"
  by (simp add: run_simps)

text \<open>
  Claim C6, as the code has it. For a source file whose hash \<open>h\<close> is computable,
  \<^verbatim>\<open>check_duplicate\<close> returns \<^verbatim>\<open>True\<close> if and only if some destination entry for which
  \<^verbatim>\<open>is_file()\<close> holds (a regular file, or a symbolic link that resolves to one) has the
  size of the source file and \<open>h\<close> is a key of the cache. The hash of the source file
  is computed once if there is such an entry and not at all otherwise; it is computed
  at the first such entry of the walk, no hash being computed on the entries before
  it, and the rest of the walk goes on with the hash in \<^verbatim>\<open>src_hash\<close>.
\<close>

theorem check_duplicate_size_and_digest:
  assumes "get_file_hash H src = Some h" and "h \<noteq> []"
  shows "check_duplicate H src hc dest =
           ((\<exists>d\<in>set dest. is_file d \<and> st_size d = st_size src) \<and> h \<in> dom hc) \<and>
         check_duplicate_hashes H src hc dest =
           (if \<exists>d\<in>set dest. is_file d \<and> st_size d = st_size src then 1 else 0) \<and>
         (\<forall>pre d rest.
            dest = pre @ d # rest \<and> is_file d \<and> st_size d = st_size src \<and>
            (\<forall>p\<in>set pre. \<not> (is_file p \<and> st_size p = st_size src)) \<longrightarrow>
            check_duplicate_loop H src hc pre None 0 = (False, 0) \<and>
            check_duplicate_loop H src hc dest None 0 =
              (if h \<in> dom hc then (True, 1)
               else check_duplicate_loop H src hc rest (Some h) 1))"
proof -
  have 1: "check_duplicate H src hc dest =
           ((\<exists>d\<in>set dest. is_file d \<and> st_size d = st_size src) \<and> h \<in> dom hc)"
    using assms by (auto simp: check_duplicate_def size_match_None)
  have 2: "check_duplicate_hashes H src hc dest =
           (if \<exists>d\<in>set dest. is_file d \<and> st_size d = st_size src then 1 else 0)"
    using assms by (auto simp: check_duplicate_hashes_def size_match_None)
  have 3: "check_duplicate_loop H src hc pre None 0 = (False, 0) \<and>
            check_duplicate_loop H src hc dest None 0 =
              (if h \<in> dom hc then (True, 1)
               else check_duplicate_loop H src hc rest (Some h) 1)"
    if "dest = pre @ d # rest" "is_file d" "st_size d = st_size src"
      "\<forall>p\<in>set pre. \<not> (is_file p \<and> st_size p = st_size src)" for pre d rest
  proof -
    have a: "check_duplicate_loop H src hc pre None 0 = (False, 0)"
      using that(4) by (simp add: size_match_None)
    have "check_duplicate_loop H src hc dest None 0 =
            check_duplicate_loop H src hc (d # rest) None 0"
      unfolding that(1) using that(4) by (rule no_size_match_prefix)
    also have "\<dots> = (if h \<in> dom hc then (True, 1)
               else check_duplicate_loop H src hc rest (Some h) 1)"
      using that(2,3) assms by (auto simp: Let_def dom_def)
    finally show ?thesis using a by simp
  qed
  from 1 2 3 show ?thesis by blast
qed

theorem check_duplicate_size_and_digest_witness:
  "check_duplicate tag_digest (photo [''a.jpg''] ''x'')
     (build_destination_hash_cache tag_digest
        [photo [''big.jpg''] ''yyy'', photo [''b.jpg''] ''y'', photo [''c.jpg''] ''x''])
     [photo [''big.jpg''] ''yyy'', photo [''b.jpg''] ''y'', photo [''c.jpg''] ''x''] = True \<and>
   check_duplicate_hashes tag_digest (photo [''a.jpg''] ''x'')
     (build_destination_hash_cache tag_digest
        [photo [''big.jpg''] ''yyy'', photo [''b.jpg''] ''y'', photo [''c.jpg''] ''x''])
     [photo [''big.jpg''] ''yyy'', photo [''b.jpg''] ''y'', photo [''c.jpg''] ''x''] = 1 \<and>
   check_duplicate_loop tag_digest (photo [''a.jpg''] ''x'')
     (build_destination_hash_cache tag_digest
        [photo [''big.jpg''] ''yyy'', photo [''b.jpg''] ''y'', photo [''c.jpg''] ''x''])
     [photo [''big.jpg''] ''yyy''] None 0 = (False, 0)"
proof -
  let ?D = "[photo [''big.jpg''] ''yyy'', photo [''b.jpg''] ''y'', photo [''c.jpg''] ''x'']"
  have 1: "get_file_hash tag_digest (photo [''a.jpg''] ''x'') = Some ''#x''"
    by (simp add: entry_simps)
  have 2: "''#x'' \<noteq> []" by simp
  note t = check_duplicate_size_and_digest [OF 1 2, of "build_destination_hash_cache tag_digest ?D" ?D]
  have 3: "?D = [photo [''big.jpg''] ''yyy''] @ photo [''b.jpg''] ''y'' # [photo [''c.jpg''] ''x''] \<and>
      is_file (photo [''b.jpg''] ''y'') \<and>
      st_size (photo [''b.jpg''] ''y'') = st_size (photo [''a.jpg''] ''x'') \<and>
      (\<forall>p\<in>set [photo [''big.jpg''] ''yyy''].
          \<not> (is_file p \<and> st_size p = st_size (photo [''a.jpg''] ''x'')))"
    by (simp add: entry_simps)
  from t 3 have "check_duplicate_loop tag_digest (photo [''a.jpg''] ''x'')
     (build_destination_hash_cache tag_digest ?D) [photo [''big.jpg''] ''yyy''] None 0 = (False, 0)"
    by blast
  moreover from t have "check_duplicate tag_digest (photo [''a.jpg''] ''x'')
     (build_destination_hash_cache tag_digest ?D) ?D = True"
    by (simp add: entry_simps dom_def)
  moreover from t have "check_duplicate_hashes tag_digest (photo [''a.jpg''] ''x'')
     (build_destination_hash_cache tag_digest ?D) ?D = 1"
    by (simp add: entry_simps dom_def)
  ultimately show ?thesis by (intro conjI)
qed

text \<open>
  Against C6 as stated: the destination holds no regular file at all, only a symbolic
  link to a file with the bytes of the source file; the check returns \<^verbatim>\<open>True\<close>.
\<close>

theorem check_duplicate_counts_symlink:
  "check_duplicate tag_digest (photo [''a.jpg''] ''x'')
     (build_destination_hash_cache tag_digest [link [''l.jpg''] ''x''])
     [link [''l.jpg''] ''x''] = True \<and>
   get_file_hash tag_digest (photo [''a.jpg''] ''x'') = Some ''#x'' \<and>
   kind (link [''l.jpg''] ''x'') \<noteq> RegularFile"
  by (simp add: entry_simps)

text \<open>
  Claim C9. If no destination file has the size of the source file, \<^verbatim>\<open>check_duplicate\<close>
  returns \<^verbatim>\<open>False\<close> and never calls \<^verbatim>\<open>get_file_hash\<close>; so two source files of that size get
  the same answer whatever their bytes are.
\<close>

theorem size_mismatch_not_hashed:
  assumes "st_size s1 = st_size s2"
    and "\<forall>d\<in>set dest. is_file d \<longrightarrow> st_size d \<noteq> st_size s1"
  shows "check_duplicate H s1 hc dest = False \<and> check_duplicate_hashes H s1 hc dest = 0 \<and>
         check_duplicate H s2 hc dest = False \<and> check_duplicate_hashes H s2 hc dest = 0"
  using assms by (auto simp: check_duplicate_def check_duplicate_hashes_def size_match_None)

theorem size_mismatch_not_hashed_witness:
  "check_duplicate tag_digest (photo [''a.jpg''] ''xy'')
      (build_destination_hash_cache tag_digest [photo [''b.jpg''] ''z''])
      [photo [''b.jpg''] ''z''] = False \<and>
   check_duplicate_hashes tag_digest (photo [''a.jpg''] ''xy'')
      (build_destination_hash_cache tag_digest [photo [''b.jpg''] ''z''])
      [photo [''b.jpg''] ''z''] = 0 \<and>
   check_duplicate tag_digest (photo [''c.jpg''] ''uv'')
      (build_destination_hash_cache tag_digest [photo [''b.jpg''] ''z''])
      [photo [''b.jpg''] ''z''] = False"
  using size_mismatch_not_hashed [of "photo [''a.jpg''] ''xy''" "photo [''c.jpg''] ''uv''"
      "[photo [''b.jpg''] ''z'']" tag_digest
      "build_destination_hash_cache tag_digest [photo [''b.jpg''] ''z'']"]
  by (simp add: photo_def st_size_def)

section \<open>Claims about the cache build\<close>

text \<open>
  Claim C7, as the code has it. The cache that \<^verbatim>\<open>build_destination_hash_cache\<close> returns
  maps a hash \<open>h\<close> to the path of the last entry of the walk for which \<^verbatim>\<open>is_file()\<close> holds
  (a regular file, or a symbolic link that resolves to one) and whose hash is \<open>h\<close>, and
  has no entry for \<open>h\<close> when there is no such entry; directories, special files and
  other links are passed over, and so is a file whose hash fails.
\<close>

theorem build_cache_last_wins:
  "build_destination_hash_cache H dest h =
     (if h = [] then None
      else map_option path (find (\<lambda>d. is_file d \<and> get_file_hash H d = Some h) (rev dest)))"
  by (simp add: build_destination_hash_cache_def build_loop_lookup split: option.splits)

theorem build_cache_last_wins_witness:
  "build_destination_hash_cache tag_digest
     [photo [''a.jpg''] ''x'', photo [''b.jpg''] ''y'', photo [''sub'', ''c.jpg''] ''x''] ''#x''
     = Some [''sub'', ''c.jpg'']"
  using build_cache_last_wins [of tag_digest
      "[photo [''a.jpg''] ''x'', photo [''b.jpg''] ''y'', photo [''sub'', ''c.jpg''] ''x'']" "''#x''"]
  by (simp add: entry_simps)

text \<open>
  Against C7 as stated: the only entry of the destination is a symbolic link to a
  regular file, and the cache has an entry for it.
\<close>

theorem build_cache_indexes_symlink:
  "build_destination_hash_cache tag_digest
     [link [''l.jpg''] ''x''] ''#x'' = Some [''l.jpg''] \<and>
   kind (link [''l.jpg''] ''x'') = SymlinkToFile"
  by (simp add: entry_simps)

text \<open>
  Claim C10. A destination file whose hash fails does not stop the build: the cache is
  the one built without that file, and its keys are exactly the hashes of the other
  files of the walk that hashed (SHA-256 never returning the empty string).
\<close>

theorem build_cache_omits_unhashable:
  assumes "\<And>b. H b \<noteq> []" and "get_file_hash H d = None"
  shows "build_destination_hash_cache H (xs @ d # ys) = build_destination_hash_cache H (xs @ ys) \<and>
         dom (build_destination_hash_cache H (xs @ d # ys)) =
           {h. \<exists>e\<in>set (xs @ ys). is_file e \<and> get_file_hash H e = Some h}"
proof -
  have eq: "build_destination_hash_cache H (xs @ d # ys) = build_destination_hash_cache H (xs @ ys)"
    using assms(2) by (simp add: build_destination_hash_cache_def build_loop_append Let_def)
  have "\<And>e h. get_file_hash H e = Some h \<Longrightarrow> h \<noteq> []"
    using assms(1) by (auto simp: get_file_hash_def split: if_splits)
  then have "dom (build_destination_hash_cache H (xs @ ys)) =
      {h. \<exists>e\<in>set (xs @ ys). is_file e \<and> get_file_hash H e = Some h}"
    unfolding build_destination_hash_cache_def build_loop_dom by auto
  with eq show ?thesis by simp
qed

theorem build_cache_omits_unhashable_witness:
  "build_destination_hash_cache tag_digest
      ([photo [''a.jpg''] ''x''] @ unreadable [''b.jpg''] ''y'' #
       [photo [''c.jpg''] ''z''])
     = build_destination_hash_cache tag_digest ([photo [''a.jpg''] ''x''] @ [photo [''c.jpg''] ''z'']) \<and>
    dom (build_destination_hash_cache tag_digest
      ([photo [''a.jpg''] ''x''] @ unreadable [''b.jpg''] ''y'' #
       [photo [''c.jpg''] ''z'']))
     = {''#x'', ''#z''}"
proof -
  have 1: "\<And>b. tag_digest b \<noteq> []" by (simp add: tag_digest_def)
  have 2: "get_file_hash tag_digest (unreadable [''b.jpg''] ''y'') = None"
    by (simp add: entry_simps)
  show ?thesis
    using build_cache_omits_unhashable [of tag_digest "unreadable [''b.jpg''] ''y''"
        "[photo [''a.jpg''] ''x'']" "[photo [''c.jpg''] ''z'']", OF 1 2]
    by (auto simp: entry_simps)
qed

section \<open>Claims about the walk\<close>

text \<open>
  Claim C8. A source file whose extension, in lower case, is not one of
  \<^verbatim>\<open>VALID_EXTENSIONS\<close> is counted as skipped and nothing else happens: the destination, the
  cache, the count of copies and the count of hash computations are as before, whatever
  the bytes of the file, the hash function and the rsync outcome are.
\<close>

theorem non_media_skipped:
  "lower (suffix (path src)) \<notin> VALID_EXTENSIONS \<Longrightarrow>
   process_file H ok st src = st\<lparr>skipped_files := skipped_files st + 1\<rparr>"
  by (simp add: process_file_def)

theorem non_media_skipped_witness:
  "process_file tag_digest always_ok (initial_state tag_digest []) (photo [''notes.txt''] ''z'') =
     (initial_state tag_digest [])\<lparr>skipped_files := 1\<rparr>"
  using non_media_skipped [of "photo [''notes.txt''] ''z''" tag_digest always_ok "initial_state tag_digest []"]
  by (simp add: suffix_simps photo_def initial_state_def)



text \<open>
  Claim C5, as the code has it. After a successful copy the code hashes the source
  file, \<^verbatim>\<open>get_file_hash(src_file)\<close>, and inserts the hash only \<^verbatim>\<open>if src_hash\<close>. So: for every
  successful copy of a source file whose hash \<open>h\<close> is then computable, \<open>h\<close> is mapped to
  the destination path, where the node that rsync created is (for a regular file, a
  copy of the source file), and the next file of the walk is processed in the state
  with that entry.
\<close>

theorem copied_file_indexed:
  assumes "lower (suffix (path src)) \<in> VALID_EXTENSIONS"
    and "\<not> check_duplicate H src (hash_cache st) (dest_tree st)"
    and "ok src"
    and "get_file_hash H src = Some h" and "h \<noteq> []"
    and "path src \<noteq> []"
  shows "hash_cache (process_file H ok st src) = (hash_cache st)(h \<mapsto> path src) \<and>
         rsync_copy src (path src) \<in> set (dest_tree (process_file H ok st src)) \<and>
         path (rsync_copy src (path src)) = path src \<and>
         (kind src = RegularFile \<longrightarrow> src \<in> set (dest_tree (process_file H ok st src))) \<and>
         process_photos_loop H ok (src # nxt # rest) st =
           process_photos_loop H ok rest (process_file H ok (process_file H ok st src) nxt)"
proof -
  have 1: "hash_cache (process_file H ok st src) = (hash_cache st)(h \<mapsto> path src)"
    using assms by (simp add: process_file_copied)
  have 2: "rsync_copy src (path src) \<in> set (dest_tree (process_file H ok st src))"
    using assms(1-3,6) by (simp add: process_file_copied parent_name put_member)
  have 3: "path (rsync_copy src (path src)) = path src"
    by (rule rsync_copy_path)
  have 4: "src \<in> set (dest_tree (process_file H ok st src))" if "kind src = RegularFile"
  proof -
    have "rsync_copy src (path src) = src"
      using rsync_copy_regular [OF that assms(6)] assms(6) by (simp add: parent_name)
    with 2 show ?thesis by simp
  qed
  have 5: "process_photos_loop H ok (src # nxt # rest) st =
           process_photos_loop H ok rest (process_file H ok (process_file H ok st src) nxt)"
    by simp
  from 1 2 3 4 5 show ?thesis by blast
qed

theorem copied_file_indexed_witness:
  "hash_cache (process_file tag_digest always_ok (initial_state tag_digest []) (photo [''a.jpg''] ''x''))
     = (hash_cache (initial_state tag_digest []))(''#x'' \<mapsto> [''a.jpg'']) \<and>
   photo [''a.jpg''] ''x'' \<in>
     set (dest_tree (process_file tag_digest always_ok (initial_state tag_digest []) (photo [''a.jpg''] ''x'')))"
proof -
  have 1: "lower (suffix (path (photo [''a.jpg''] ''x''))) \<in> VALID_EXTENSIONS"
    by (simp add: photo_def suffix_simps)
  have 2: "\<not> check_duplicate tag_digest (photo [''a.jpg''] ''x'')
      (hash_cache (initial_state tag_digest [])) (dest_tree (initial_state tag_digest []))"
    by (simp add: run_simps)
  have 3: "always_ok (photo [''a.jpg''] ''x'')" by (simp add: always_ok_def)
  have 4: "get_file_hash tag_digest (photo [''a.jpg''] ''x'') = Some ''#x''" by (simp add: entry_simps)
  have 5: "''#x'' \<noteq> []" by simp
  have 6: "path (photo [''a.jpg''] ''x'') \<noteq> []" by (simp add: photo_def)
  from copied_file_indexed [where H = tag_digest and ok = always_ok and src = "photo [''a.jpg''] ''x''"
      and st = "initial_state tag_digest []", OF 1 2 3 4 5 6]
  show ?thesis by (simp add: photo_def)
qed

text \<open>
  Against C5 as stated: rsync copies \<^verbatim>\<open>a.jpg\<close> into the empty destination, the hash of the
  file then fails, and the cache stays as it was, with no entry for the copy.
\<close>

theorem copied_file_not_indexed:
  "copied_files (process_file tag_digest always_ok (initial_state tag_digest [])
      (unreadable [''a.jpg''] ''x'')) = 1 \<and>
   dest_tree (process_file tag_digest always_ok (initial_state tag_digest [])
      (unreadable [''a.jpg''] ''x'')) = [unreadable [''a.jpg''] ''x''] \<and>
   hash_cache (process_file tag_digest always_ok (initial_state tag_digest [])
      (unreadable [''a.jpg''] ''x'')) = hash_cache (initial_state tag_digest [])"
  by (simp add: run_simps)




text \<open>
  Why the first of the two files has to be a regular file: here \<^verbatim>\<open>a.jpg\<close> is a symbolic
  link whose text leads nowhere from the destination. rsync recreates the link, the
  hash of the source is inserted, and the destination still has no file of that size
  for \<^verbatim>\<open>is_file()\<close>: \<^verbatim>\<open>b.jpg\<close>, with the same bytes, is copied as well.
\<close>

lemma dangling_link_copy_is_no_size_match:
  "dest_tree (process_photos tag_digest always_ok
      [link [''a.jpg''] ''x'', photo [''b.jpg''] ''x''] []) =
     [\<lparr>path = [''a.jpg''], kind = SymlinkOther, data = ''x'', readable = True, relinked = None\<rparr>,
      photo [''b.jpg''] ''x''] \<and>
   copied_files (process_photos tag_digest always_ok
      [link [''a.jpg''] ''x'', photo [''b.jpg''] ''x''] []) = 2"
  by (simp add: run_simps)

text \<open>
  Two runs in a row, where no copy replaces a destination file. Let the paths of the
  walk be distinct, let every source file with a valid extension be a readable regular
  file that rsync copies without error, and let the destination hold nothing at the
  path of such a file but a copy of it. Then a second run, on the same source and on
  the destination as the first run left it, copies nothing, changes nothing in the
  destination and counts every file as skipped, every file with a valid extension
  being classified as a duplicate.
\<close>

lemma second_run_copies_nothing:
  assumes ne: "\<And>b. H b \<noteq> []"
    and files: "\<forall>s\<in>set originals. lower (suffix (path s)) \<in> VALID_EXTENSIONS \<longrightarrow>
                  readable s \<and> kind s = RegularFile \<and> ok s \<and> path s \<noteq> []"
    and dist: "distinct (map path originals)"
    and same: "\<forall>s\<in>set originals. lower (suffix (path s)) \<in> VALID_EXTENSIONS \<longrightarrow>
                  (\<forall>d\<in>set dest_dir. path d = path s \<longrightarrow> d = s)"
  shows "copied_files (process_photos H ok originals
            (dest_tree (process_photos H ok originals dest_dir))) = 0 \<and>
         skipped_files (process_photos H ok originals
            (dest_tree (process_photos H ok originals dest_dir))) = length originals \<and>
         dest_tree (process_photos H ok originals
            (dest_tree (process_photos H ok originals dest_dir))) =
           dest_tree (process_photos H ok originals dest_dir) \<and>
         (\<forall>s\<in>set originals. lower (suffix (path s)) \<in> VALID_EXTENSIONS \<longrightarrow>
            check_duplicate H s
              (build_destination_hash_cache H (dest_tree (process_photos H ok originals dest_dir)))
              (dest_tree (process_photos H ok originals dest_dir)))"
proof -
  let ?st0 = "initial_state H dest_dir"
  let ?st1 = "process_photos H ok originals dest_dir"
  let ?st0' = "initial_state H (dest_tree ?st1)"
  have inv0: "dom (hash_cache ?st0) = dom (build_destination_hash_cache H (dest_tree ?st0))"
    by (simp add: initial_state_def)
  have files': "\<And>s. s \<in> set originals \<Longrightarrow> lower (suffix (path s)) \<in> VALID_EXTENSIONS \<Longrightarrow>
                  readable s \<and> kind s = RegularFile \<and> ok s \<and> path s \<noteq> []"
    using files by blast
  have same': "\<And>s d. s \<in> set originals \<Longrightarrow> lower (suffix (path s)) \<in> VALID_EXTENSIONS \<Longrightarrow>
                  d \<in> set (dest_tree ?st0) \<Longrightarrow> path d = path s \<Longrightarrow> d = s"
    using same by (simp add: initial_state_def)
  have st1: "?st1 = process_photos_loop H ok originals ?st0"
    by (simp add: process_photos_def)
  note run1 = first_run [where H = H and ok = ok and fs = originals and st = ?st0,
      OF ne files' dist inv0 same', folded st1]
  have inv1: "dom (hash_cache ?st1) = dom (build_destination_hash_cache H (dest_tree ?st1))"
    using run1 by blast
  have dup1: "\<forall>s\<in>set originals. lower (suffix (path s)) \<in> VALID_EXTENSIONS \<longrightarrow>
      check_duplicate H s (hash_cache ?st1) (dest_tree ?st1)"
    using run1 by blast
  have cache0': "hash_cache ?st0' = build_destination_hash_cache H (dest_tree ?st1)"
    and tree0': "dest_tree ?st0' = dest_tree ?st1"
    and count0': "copied_files ?st0' = 0" "skipped_files ?st0' = 0"
    by (simp_all add: initial_state_def)
  have dup: "\<And>s. s \<in> set originals \<Longrightarrow> lower (suffix (path s)) \<in> VALID_EXTENSIONS \<Longrightarrow>
             check_duplicate H s (hash_cache ?st0') (dest_tree ?st0')"
  proof -
    fix s assume a: "s \<in> set originals" "lower (suffix (path s)) \<in> VALID_EXTENSIONS"
    with dup1 have "check_duplicate H s (hash_cache ?st1) (dest_tree ?st1)" by blast
    moreover have "dom (hash_cache ?st1) \<subseteq> dom (hash_cache ?st0')"
      unfolding cache0' inv1 by (rule subset_refl)
    moreover have "set (dest_tree ?st1) \<subseteq> set (dest_tree ?st0')"
      unfolding tree0' by (rule subset_refl)
    ultimately show "check_duplicate H s (hash_cache ?st0') (dest_tree ?st0')"
      by (rule check_duplicate_mono)
  qed
  have st2: "process_photos H ok originals (dest_tree ?st1) = process_photos_loop H ok originals ?st0'"
    by (simp add: process_photos_def)
  note run2 = second_run [where H = H and ok = ok and fs = originals and st = ?st0', OF dup]
  have "\<forall>s\<in>set originals. lower (suffix (path s)) \<in> VALID_EXTENSIONS \<longrightarrow>
            check_duplicate H s (build_destination_hash_cache H (dest_tree ?st1)) (dest_tree ?st1)"
    using dup unfolding cache0' tree0' by blast
  moreover have "copied_files (process_photos_loop H ok originals ?st0') = 0"
    using run2 count0' by simp
  moreover have "skipped_files (process_photos_loop H ok originals ?st0') = length originals"
    using run2 count0' by simp
  moreover have "dest_tree (process_photos_loop H ok originals ?st0') = dest_tree ?st1"
    using run2 tree0' by simp
  ultimately show ?thesis unfolding st2 by (intro conjI)
qed

lemma second_run_copies_nothing_witness:
  "copied_files (process_photos tag_digest always_ok
      [photo [''a.jpg''] ''x'', photo [''b.jpg''] ''x'', photo [''c.png''] ''yy'', photo [''d.txt''] ''z'']
      (dest_tree (process_photos tag_digest always_ok
         [photo [''a.jpg''] ''x'', photo [''b.jpg''] ''x'', photo [''c.png''] ''yy'', photo [''d.txt''] ''z'']
         [photo [''c.png''] ''yy'', photo [''old.jpg''] ''w'']))) = 0 \<and>
   skipped_files (process_photos tag_digest always_ok
      [photo [''a.jpg''] ''x'', photo [''b.jpg''] ''x'', photo [''c.png''] ''yy'', photo [''d.txt''] ''z'']
      (dest_tree (process_photos tag_digest always_ok
         [photo [''a.jpg''] ''x'', photo [''b.jpg''] ''x'', photo [''c.png''] ''yy'', photo [''d.txt''] ''z'']
         [photo [''c.png''] ''yy'', photo [''old.jpg''] ''w'']))) = 4"
proof -
  let ?S = "[photo [''a.jpg''] ''x'', photo [''b.jpg''] ''x'', photo [''c.png''] ''yy'', photo [''d.txt''] ''z'']"
  let ?D = "[photo [''c.png''] ''yy'', photo [''old.jpg''] ''w'']"
  have 1: "\<And>b. tag_digest b \<noteq> []" by (simp add: tag_digest_def)
  have 2: "\<forall>s\<in>set ?S. lower (suffix (path s)) \<in> VALID_EXTENSIONS \<longrightarrow>
                  readable s \<and> kind s = RegularFile \<and> always_ok s \<and> path s \<noteq> []"
    by (simp add: photo_def is_file_def always_ok_def)
  have 3: "distinct (map path ?S)" by (simp add: photo_def)
  have 4: "\<forall>s\<in>set ?S. lower (suffix (path s)) \<in> VALID_EXTENSIONS \<longrightarrow>
                  (\<forall>d\<in>set ?D. path d = path s \<longrightarrow> d = s)"
    by (simp add: photo_def)
  from second_run_copies_nothing [where H = tag_digest and ok = always_ok and originals = ?S and dest_dir = ?D, OF 1 2 3 4]
  show ?thesis by simp
qed

text \<open>
  Claim C2: a second run, on the unchanged source and on the destination as the first
  run left it, copies nothing, every source file with a valid extension being
  classified as a duplicate. The code breaks the claim on this input. The destination
  holds an older \<^verbatim>\<open>a.jpg\<close> with the bytes of the source's \<^verbatim>\<open>b.jpg\<close>, and a \<^verbatim>\<open>c.jpg\<close> of the same
  size. The first run replaces \<^verbatim>\<open>a.jpg\<close> with the new one and keeps the digest of the old
  bytes in the cache, mapped to \<^verbatim>\<open>a.jpg\<close>; it then finds \<^verbatim>\<open>b.jpg\<close> to be a duplicate and skips
  it, although no file of the destination has its bytes. The second run builds its
  cache from the destination as it is and copies \<^verbatim>\<open>b.jpg\<close>.
\<close>

theorem second_run_copies_again:
  "copied_files (process_photos tag_digest always_ok
      [photo [''a.jpg''] ''yy'', photo [''b.jpg''] ''x'']
      [photo [''a.jpg''] ''x'', photo [''c.jpg''] ''z'']) = 1 \<and>
   skipped_files (process_photos tag_digest always_ok
      [photo [''a.jpg''] ''yy'', photo [''b.jpg''] ''x'']
      [photo [''a.jpg''] ''x'', photo [''c.jpg''] ''z'']) = 1 \<and>
   dest_tree (process_photos tag_digest always_ok
      [photo [''a.jpg''] ''yy'', photo [''b.jpg''] ''x'']
      [photo [''a.jpg''] ''x'', photo [''c.jpg''] ''z'']) =
     [photo [''a.jpg''] ''yy'', photo [''c.jpg''] ''z''] \<and>
   hash_cache (process_photos tag_digest always_ok
      [photo [''a.jpg''] ''yy'', photo [''b.jpg''] ''x'']
      [photo [''a.jpg''] ''x'', photo [''c.jpg''] ''z'']) (tag_digest ''x'') = Some [''a.jpg''] \<and>
   check_duplicate tag_digest (photo [''b.jpg''] ''x'')
     (hash_cache (process_file tag_digest always_ok
        (initial_state tag_digest [photo [''a.jpg''] ''x'', photo [''c.jpg''] ''z''])
        (photo [''a.jpg''] ''yy'')))
     (dest_tree (process_file tag_digest always_ok
        (initial_state tag_digest [photo [''a.jpg''] ''x'', photo [''c.jpg''] ''z''])
        (photo [''a.jpg''] ''yy''))) \<and>
   copied_files (process_photos tag_digest always_ok
      [photo [''a.jpg''] ''yy'', photo [''b.jpg''] ''x'']
      (dest_tree (process_photos tag_digest always_ok
         [photo [''a.jpg''] ''yy'', photo [''b.jpg''] ''x'']
         [photo [''a.jpg''] ''x'', photo [''c.jpg''] ''z'']))) = 1"
  by (simp add: run_simps)

end
